theory Spec2Isabelle
  imports Complex_Main
begin

section \<open>The cookie encoder of cookies.py\<close>

text \<open>
  The encoding part of \<^verbatim>\<open>cookies.py\<close>: \<^verbatim>\<open>get_probability\<close>, \<^verbatim>\<open>arithmetic_encode\<close>,
  \<^verbatim>\<open>encode\<close> and the loop of \<^verbatim>\<open>parse\<close> that calls \<^verbatim>\<open>encode\<close> on every row.

  Conventions of the embedding:
  \<^item> a Python \<^verbatim>\<open>str\<close> is a \<open>string\<close>;
  \<^item> the arithmetic of Python \<^verbatim>\<open>float\<close>s is embedded twice. The functions named as in the
    source (\<open>get_probability\<close>, \<open>arithmetic_encode\<close>, \<open>encode\<close>, \<open>parse\<close>) compute in
    exact reals: they give what the formulas of the code mean, and they agree with the code
    wherever no operation rounds (dyadic values). The functions with the suffix \<open>_fl\<close> are
    the same code with every arithmetic operation rounded to the nearest IEEE double
    (\<open>round_double\<close>), as the interpreter computes it;
  \<^item> the dict \<^verbatim>\<open>probabilities\<close> is a map from characters to pairs (only membership, lookup
    and assignment are used on it, never its iteration order);
  \<^item> \<^verbatim>\<open>Counter(cookie)\<close> is an association list in insertion order, which is the order of
    \<^verbatim>\<open>char_count.items()\<close>;
  \<^item> the module-level list \<^verbatim>\<open>cache\<close> is a list of Python values, passed explicitly;
  \<^item> every exception the code can raise is a value \<open>Inl e\<close>.
\<close>

subsection \<open>Values and errors\<close>

datatype py_error = ZeroDivisionError | KeyError | IndexError

datatype pyval = PyStr string | PyFloat real

type_synonym probs = "char \<rightharpoonup> real \<times> real"

text \<open>\<^verbatim>\<open>count / total_chars\<close> on two ints: true division, which raises on a zero divisor.
  Here the quotient is exact; \<open>truediv_fl\<close> below rounds it.\<close>

definition truediv :: "nat \<Rightarrow> nat \<Rightarrow> py_error + real" where
  "truediv a b = (if b = 0 then Inl ZeroDivisionError else Inr (real a / real b))"

text \<open>\<^verbatim>\<open>list.insert(i, x)\<close> for \<open>i \<ge> 0\<close>: \<open>x\<close> goes before position \<open>i\<close>, or at the end
  when the list is shorter.\<close>

definition list_insert :: "nat \<Rightarrow> 'a \<Rightarrow> 'a list \<Rightarrow> 'a list" where
  "list_insert i x xs = take i xs @ x # drop i xs"

subsection \<open>Rounding to a double\<close>

text \<open>An IEEE 754 binary64 operation returns the exact result rounded to the nearest
  double, ties going to the even significand. A positive double is \<open>k * 2 ^ (e - 52)\<close> with
  \<open>2 ^ 52 \<le> k < 2 ^ 53\<close> and \<open>- 1022 \<le> e\<close> (normal), or with \<open>k < 2 ^ 52\<close> and
  \<open>e = - 1022\<close> (subnormal). \<open>exponent x\<close> is the \<open>e\<close> of the binade of \<open>x\<close>,
  \<open>round_pos\<close> rounds a positive real to the nearest multiple of \<open>2 ^ (e - 52)\<close>, and
  \<open>round_double\<close> extends it by symmetry. Overflow to infinity is not modelled (the
  exponent is not bounded above): the quantities of this program are sums of frequencies,
  products of interval bounds and a scalar \<open>(1 - x) * 10\<close>, all near \<open>[0, 10]\<close>.\<close>

definition round_half_even :: "real \<Rightarrow> int" where
  "round_half_even y =
     (let f = \<lfloor>y\<rfloor>; r = y - of_int f
      in if r < 1 / 2 then f else if 1 / 2 < r then f + 1 else if even f then f else f + 1)"

text \<open>\<open>exponent_hi\<close> halves a real \<open>\<ge> 1\<close> until it is below 2; \<open>exponent_lo n\<close> doubles a real
  \<open>< 1\<close> until it reaches 1, at most \<open>n\<close> times, so that \<open>exponent\<close> never goes below
  \<open>- 1022\<close>.\<close>

function exponent_hi :: "real \<Rightarrow> int" where
  "exponent_hi x = (if x < 2 then 0 else exponent_hi (x / 2) + 1)"
  by pat_completeness auto
termination
proof (relation "measure (\<lambda>x. nat \<lfloor>x\<rfloor>)")
  show "wf (measure (\<lambda>x::real. nat \<lfloor>x\<rfloor>))" by simp
next
  fix x :: real
  assume "\<not> x < 2"
  then have "2 \<le> x" by simp
  then have "\<lfloor>x / 2\<rfloor> < \<lfloor>x\<rfloor>" by (simp add: floor_less_iff) linarith
  moreover have "0 < \<lfloor>x\<rfloor>" using \<open>2 \<le> x\<close> by (simp add: floor_less_iff less_floor_iff)
  ultimately show "(x / 2, x) \<in> measure (\<lambda>x. nat \<lfloor>x\<rfloor>)" by simp
qed

fun exponent_lo :: "nat \<Rightarrow> real \<Rightarrow> int" where
  "exponent_lo n x = (if n = 0 \<or> 1 \<le> x then 0 else exponent_lo (n - 1) (2 * x) - 1)"

declare exponent_hi.simps [simp del] exponent_lo.simps [simp del]

definition exponent :: "real \<Rightarrow> int" where
  "exponent x = (if 1 \<le> x then exponent_hi x else exponent_lo 1022 x)"

definition round_pos :: "real \<Rightarrow> real" where
  "round_pos x = (let q = 2 powi (exponent x - 52) in of_int (round_half_even (x / q)) * q)"

definition round_double :: "real \<Rightarrow> real" where
  "round_double x = (if x = 0 then 0 else if 0 < x then round_pos x else - round_pos (- x))"

text \<open>The spacing of the doubles around \<open>x\<close>.\<close>

definition quantum :: "real \<Rightarrow> real" where
  "quantum x = 2 powi (exponent x - 52)"

subsection \<open>Counter\<close>

text \<open>\<^verbatim>\<open>Counter(cookie)\<close> reads the string from left to right; a character seen before has its
  count incremented in place, a new one is appended with count 1.\<close>

fun counter_add :: "(char \<times> nat) list \<Rightarrow> char \<Rightarrow> (char \<times> nat) list" where
  "counter_add [] c = [(c, 1)]"
| "counter_add ((d, n) # rest) c =
     (if c = d then (d, Suc n) # rest else (d, n) # counter_add rest c)"

definition Counter :: "string \<Rightarrow> (char \<times> nat) list" where
  "Counter cookie = foldl counter_add [] cookie"

subsection \<open>get_probability\<close>

text \<open>The body of \<^verbatim>\<open>for char, count in char_count.items()\<close>, with the loop variable
  \<^verbatim>\<open>start\<close> and the dict as arguments.\<close>

fun get_probability_loop ::
  "(char \<times> nat) list \<Rightarrow> nat \<Rightarrow> real \<Rightarrow> probs \<Rightarrow> py_error + probs" where
  "get_probability_loop [] total_chars start probabilities = Inr probabilities"
| "get_probability_loop ((ch, count) # rest) total_chars start probabilities =
     (case truediv count total_chars of
        Inl e \<Rightarrow> Inl e
      | Inr probability \<Rightarrow>
          (let end = start + probability;
               probabilities' =
                 (case probabilities ch of
                    Some (old_start, old_end) \<Rightarrow>
                      probabilities(ch \<mapsto>
                        (start + old_start * (end - start), start + old_end * (end - start)))
                  | None \<Rightarrow> probabilities(ch \<mapsto> (start, end)))
           in get_probability_loop rest total_chars end probabilities'))"

definition get_probability :: "string \<Rightarrow> probs \<Rightarrow> py_error + probs" where
  "get_probability cookie probabilities =
     get_probability_loop (Counter cookie) (length cookie) 0 probabilities"

subsection \<open>arithmetic_encode\<close>

text \<open>The body of \<^verbatim>\<open>for char in cookie\<close>; \<^verbatim>\<open>probabilities[char]\<close> raises KeyError on a
  missing key.\<close>

fun arithmetic_encode_loop ::
  "string \<Rightarrow> probs \<Rightarrow> real \<Rightarrow> real \<Rightarrow> py_error + real \<times> real" where
  "arithmetic_encode_loop [] probabilities interval_start interval_size =
     Inr (interval_start, interval_size)"
| "arithmetic_encode_loop (ch # rest) probabilities interval_start interval_size =
     (case probabilities ch of
        None \<Rightarrow> Inl KeyError
      | Some char_range \<Rightarrow>
          arithmetic_encode_loop rest probabilities
            (interval_start + interval_size * fst char_range)
            (interval_size * (snd char_range - fst char_range)))"

definition arithmetic_encode :: "string \<Rightarrow> probs \<Rightarrow> py_error + real" where
  "arithmetic_encode cookie probabilities =
     (case arithmetic_encode_loop cookie probabilities 0 1 of
        Inl e \<Rightarrow> Inl e
      | Inr (interval_start, interval_size) \<Rightarrow>
          Inr ((1 - (interval_start + 0.5 * interval_size)) * 10))"

subsection \<open>get_probability and arithmetic_encode in double arithmetic\<close>






subsection \<open>encode\<close>

text \<open>The state \<^verbatim>\<open>encode\<close> works on: the dict it is given (mutated in place, so the caller
  sees the update) and the global list \<^verbatim>\<open>cache\<close>.\<close>

record state =
  probabilities :: probs
  cache :: "pyval list"

definition encode :: "string \<Rightarrow> state \<Rightarrow> py_error + pyval \<times> state" where
  "encode cookie st =
     (if cache st \<noteq> [] \<and> cache st ! 0 = PyStr cookie then
        (if length (cache st) < 2 then Inl IndexError else Inr (cache st ! 1, st))
      else
        (case get_probability cookie (probabilities st) of
           Inl e \<Rightarrow> Inl e
         | Inr probabilities' \<Rightarrow>
             (case arithmetic_encode cookie probabilities' of
                Inl e \<Rightarrow> Inl e
              | Inr encoded_value \<Rightarrow>
                  Inr (PyFloat encoded_value,
                       \<lparr>probabilities = probabilities',
                        cache = list_insert 1 (PyFloat encoded_value)
                                  (list_insert 0 (PyStr cookie) (cache st))\<rparr>))))"

subsection \<open>parse and a pool worker\<close>

text \<open>The loop \<^verbatim>\<open>for row in reader: newdata.append(encode(row[1], probabilities))\<close>; the
  rows are given by their second column.\<close>

fun parse_loop :: "string list \<Rightarrow> state \<Rightarrow> pyval list \<Rightarrow> py_error + pyval list \<times> state" where
  "parse_loop [] st newdata = Inr (newdata, st)"
| "parse_loop (row # rows) st newdata =
     (case encode row st of
        Inl e \<Rightarrow> Inl e
      | Inr (v, st') \<Rightarrow> parse_loop rows st' (newdata @ [v]))"

text \<open>\<^verbatim>\<open>parse\<close> starts from \<^verbatim>\<open>probabilities = {}\<close> and from the global \<^verbatim>\<open>cache\<close> as it
  finds it; it returns the column of encoded values and the global as it leaves it.\<close>

definition parse :: "string list \<Rightarrow> pyval list \<Rightarrow> py_error + pyval list \<times> pyval list" where
  "parse rows cache0 =
     (case parse_loop rows \<lparr>probabilities = Map.empty, cache = cache0\<rparr> [] of
        Inl e \<Rightarrow> Inl e
      | Inr (newdata, st) \<Rightarrow> Inr (newdata, cache st))"

text \<open>A worker process of the pool runs \<^verbatim>\<open>process\<close> on the files it is handed, one after the
  other, in one interpreter: the module globals live on from one file to the next.\<close>

fun worker :: "string list list \<Rightarrow> pyval list \<Rightarrow> py_error + pyval list list \<times> pyval list" where
  "worker [] cache0 = Inr ([], cache0)"
| "worker (file # files) cache0 =
     (case parse file cache0 of
        Inl e \<Rightarrow> Inl e
      | Inr (newdata, cache1) \<Rightarrow>
          (case worker files cache1 of
             Inl e \<Rightarrow> Inl e
           | Inr (out, cache2) \<Rightarrow> Inr (newdata # out, cache2)))"

subsection \<open>encode and parse in double arithmetic\<close>




subsection \<open>The update as the specification words it\<close>

text \<open>The specification describes the update of the model character by character: the
  distinct characters of the string in the order in which they are first counted, each
  with its frequency; the cursor at a character is the sum of the frequencies of the
  characters before it; a character with an interval gets the rescaled one, a new character
  gets its slot; every other character keeps what it had. These definitions follow that
  wording and are compared with \<open>get_probability\<close> below.\<close>

definition first_counted :: "string \<Rightarrow> char list" where
  "first_counted s = rev (remdups (rev s))"

definition freq :: "string \<Rightarrow> char \<Rightarrow> real" where
  "freq s c = real (count_list s c) / real (length s)"

definition slot_start :: "string \<Rightarrow> char \<Rightarrow> real" where
  "slot_start s c = (\<Sum>d\<leftarrow>takeWhile (\<lambda>d. d \<noteq> c) (first_counted s). freq s d)"

definition rescale :: "real \<Rightarrow> real \<Rightarrow> (real \<times> real) option \<Rightarrow> real \<times> real" where
  "rescale start end old =
     (case old of
        Some (old_start, old_end) \<Rightarrow>
          (start + old_start * (end - start), start + old_end * (end - start))
      | None \<Rightarrow> (start, end))"

definition update_spec :: "string \<Rightarrow> probs \<Rightarrow> probs" where
  "update_spec s m =
     (\<lambda>c. if c \<in> set s
          then Some (rescale (slot_start s c) (slot_start s c + freq s c) (m c))
          else m c)"


subsection \<open>Predicates of the properties\<close>

text \<open>An entry of the model is well formed when \<open>0 \<le> lo < hi \<le> 1\<close>.\<close>

definition wf_probs :: "probs \<Rightarrow> bool" where
  "wf_probs m = (\<forall>c lo hi. m c = Some (lo, hi) \<longrightarrow> 0 \<le> lo \<and> lo < hi \<and> hi \<le> 1)"




text \<open>The front of the cache as \<open>encode\<close> leaves it: either nothing, or a string and a
  scalar in \<open>[0, 10]\<close> before whatever was there.\<close>

fun cache_ok :: "pyval list \<Rightarrow> bool" where
  "cache_ok [] = True"
| "cache_ok (PyStr s # PyFloat v # rest) = (0 \<le> v \<and> v \<le> 10)"
| "cache_ok _ = False"

definition state_ok :: "state \<Rightarrow> bool" where
  "state_ok st = (wf_probs (probabilities st) \<and> cache_ok (cache st))"


subsection \<open>Predicates of the properties in double arithmetic\<close>






text \<open>The value of the cursor \<^verbatim>\<open>start\<close> after the loop of \<^verbatim>\<open>get_probability\<close>: the running
  sum of the rounded frequencies, rounded at every addition.\<close>

definition cursor_fl :: "string \<Rightarrow> real" where
  "cursor_fl s =
     foldl (\<lambda>start c. round_double
              (start + round_double (real (count_list s c) / real (length s))))
       0 (first_counted s)"

section \<open>Auxiliary facts\<close>

subsection \<open>Counter in closed form\<close>

lemma first_counted_snoc:
  "first_counted (s @ [x]) = (if x \<in> set s then first_counted s else first_counted s @ [x])"
  by (simp add: first_counted_def)

lemma distinct_first_counted: "distinct (first_counted s)"
  by (simp add: first_counted_def)

lemma set_first_counted: "set (first_counted s) = set s"
  by (simp add: first_counted_def)

lemma counter_add_map:
  "distinct ds \<Longrightarrow>
   counter_add (map (\<lambda>d. (d, f d)) ds) c =
     (if c \<in> set ds then map (\<lambda>d. (d, if d = c then Suc (f d) else f d)) ds
      else map (\<lambda>d. (d, f d)) ds @ [(c, 1)])"
  by (induction ds) auto

lemma Counter_snoc: "Counter (s @ [x]) = counter_add (Counter s) x"
  by (simp add: Counter_def)

lemma Counter_closed: "Counter s = map (\<lambda>c. (c, count_list s c)) (first_counted s)"
proof (induction s rule: rev_induct)
  case Nil
  show ?case by (simp add: Counter_def first_counted_def)
next
  case (snoc x s)
  show ?case
  proof (cases "x \<in> set s")
    case True
    then show ?thesis
      by (auto simp: Counter_snoc snoc counter_add_map distinct_first_counted
          set_first_counted first_counted_snoc)
  next
    case False
    then show ?thesis
      by (auto simp: Counter_snoc snoc counter_add_map distinct_first_counted
          set_first_counted first_counted_snoc)
  qed
qed

subsection \<open>get_probability in closed form\<close>

lemma loop_step:
  "tc \<noteq> 0 \<Longrightarrow>
   get_probability_loop ((ch, n) # rest) tc start m =
   get_probability_loop rest tc (start + real n / real tc)
     (m(ch \<mapsto> rescale start (start + real n / real tc) (m ch)))"
  by (simp add: truediv_def Let_def rescale_def split: option.splits)

lemma loop_closed:
  "distinct ds \<Longrightarrow> tc \<noteq> 0 \<Longrightarrow>
   get_probability_loop (map (\<lambda>d. (d, g d)) ds) tc start m =
   Inr (\<lambda>c. if c \<in> set ds
            then Some (rescale
                   (start + (\<Sum>d\<leftarrow>takeWhile (\<lambda>d. d \<noteq> c) ds. real (g d) / real tc))
                   (start + (\<Sum>d\<leftarrow>takeWhile (\<lambda>d. d \<noteq> c) ds. real (g d) / real tc)
                      + real (g c) / real tc)
                   (m c))
            else m c)"
proof (induction ds arbitrary: start m)
  case Nil
  show ?case by simp
next
  case (Cons d ds)
  from Cons.prems have d: "d \<notin> set ds" and dist: "distinct ds" by simp_all
  show ?case
    unfolding list.map loop_step [OF Cons.prems(2)] Cons.IH [OF dist Cons.prems(2)]
    using d by (auto simp: fun_eq_iff add.assoc)
qed

lemma get_probability_closed: "get_probability cookie m = Inr (update_spec cookie m)"
proof (cases "cookie = []")
  case True
  then show ?thesis
    by (simp add: get_probability_def Counter_def update_spec_def)
next
  case False
  then have "length cookie \<noteq> 0" by simp
  then show ?thesis
    unfolding get_probability_def Counter_closed
    by (auto simp: loop_closed distinct_first_counted set_first_counted update_spec_def
        slot_start_def freq_def fun_eq_iff)
qed

subsection \<open>Well-formed intervals\<close>

lemma freq_nonneg: "0 \<le> freq s d"
  by (simp add: freq_def)

lemma freq_pos: "c \<in> set s \<Longrightarrow> 0 < freq s c"
proof -
  assume c: "c \<in> set s"
  then have "0 < count_list s c" by (simp add: count_list_0_iff zero_less_iff_neq_zero)
  moreover from c have "0 < length s" by (cases s) auto
  ultimately show ?thesis by (simp add: freq_def)
qed

lemma sum_freq_first_counted: "s \<noteq> [] \<Longrightarrow> (\<Sum>d\<leftarrow>first_counted s. freq s d) = 1"
proof -
  assume ne: "s \<noteq> []"
  have "(\<Sum>d\<leftarrow>first_counted s. freq s d) = (\<Sum>d\<in>set s. freq s d)"
    using sum_list_distinct_conv_sum_set [OF distinct_first_counted, of "freq s" s]
    by (simp add: set_first_counted)
  also have "\<dots> = real (\<Sum>d\<in>set s. count_list s d) / real (length s)"
    by (simp add: freq_def sum_divide_distrib)
  also have "(\<Sum>d\<in>set s. count_list s d) = length s"
    by (rule sum_count_set) simp_all
  finally show ?thesis using ne by simp
qed

lemma sum_list_split_at:
  "c \<in> set ds \<Longrightarrow>
   (\<Sum>d\<leftarrow>ds. (f d :: real)) =
     (\<Sum>d\<leftarrow>takeWhile (\<lambda>d. d \<noteq> c) ds. f d) + f c + (\<Sum>d\<leftarrow>tl (dropWhile (\<lambda>d. d \<noteq> c) ds). f d)"
  by (induction ds) auto

lemma slot_start_nonneg: "0 \<le> slot_start s c"
  unfolding slot_start_def by (rule sum_list_nonneg) (auto simp: freq_nonneg)

lemma slot_end_le_1: "c \<in> set s \<Longrightarrow> slot_start s c + freq s c \<le> 1"
proof -
  assume c: "c \<in> set s"
  then have ne: "s \<noteq> []" by auto
  from c have "c \<in> set (first_counted s)" by (simp add: set_first_counted)
  from sum_list_split_at [OF this, of "freq s"]
  have "1 = slot_start s c + freq s c
          + (\<Sum>d\<leftarrow>tl (dropWhile (\<lambda>d. d \<noteq> c) (first_counted s)). freq s d)"
    by (simp add: sum_freq_first_counted [OF ne] slot_start_def)
  moreover have "0 \<le> (\<Sum>d\<leftarrow>tl (dropWhile (\<lambda>d. d \<noteq> c) (first_counted s)). freq s d)"
    by (rule sum_list_nonneg) (auto simp: freq_nonneg)
  ultimately show ?thesis by linarith
qed

lemma rescale_wf:
  assumes "0 \<le> a" "a < b" "b \<le> 1"
    and "\<And>lo hi. old = Some (lo, hi) \<Longrightarrow> 0 \<le> lo \<and> lo < hi \<and> hi \<le> 1"
    and "rescale a b old = (x, y)"
  shows "0 \<le> x \<and> x < y \<and> y \<le> 1"
proof (cases old)
  case None
  with assms show ?thesis by (simp add: rescale_def)
next
  case (Some p)
  obtain lo hi where p: "p = (lo, hi)" by (cases p)
  with Some assms(4) have b: "0 \<le> lo" "lo < hi" "hi \<le> 1" by auto
  from Some p assms(5) have x: "x = a + lo * (b - a)" and y: "y = a + hi * (b - a)"
    by (simp_all add: rescale_def)
  have w: "0 < b - a" using assms(2) by simp
  have "0 \<le> lo * (b - a)" using b(1) w by simp
  moreover have "lo * (b - a) < hi * (b - a)" using b(2) w by simp
  moreover have "hi * (b - a) \<le> 1 * (b - a)" using b(3) w by (intro mult_right_mono) simp_all
  ultimately show ?thesis using x y assms(1,3) by simp
qed

lemma wf_probs_update_spec: "wf_probs m \<Longrightarrow> wf_probs (update_spec s m)"
  unfolding wf_probs_def
proof (intro allI impI)
  fix c lo hi
  assume wf: "\<forall>c lo hi. m c = Some (lo, hi) \<longrightarrow> 0 \<le> lo \<and> lo < hi \<and> hi \<le> 1"
    and u: "update_spec s m c = Some (lo, hi)"
  show "0 \<le> lo \<and> lo < hi \<and> hi \<le> 1"
  proof (cases "c \<in> set s")
    case False
    with u wf show ?thesis by (simp add: update_spec_def)
  next
    case True
    with u have r: "rescale (slot_start s c) (slot_start s c + freq s c) (m c) = (lo, hi)"
      by (simp add: update_spec_def)
    show ?thesis
    proof (rule rescale_wf [OF _ _ _ _ r])
      show "0 \<le> slot_start s c" by (rule slot_start_nonneg)
      show "slot_start s c < slot_start s c + freq s c" using freq_pos [OF True] by simp
      show "slot_start s c + freq s c \<le> 1" by (rule slot_end_le_1 [OF True])
      show "\<And>lo hi. m c = Some (lo, hi) \<Longrightarrow> 0 \<le> lo \<and> lo < hi \<and> hi \<le> 1" using wf by blast
    qed
  qed
qed

lemma wf_probs_get_probability:
  "wf_probs m \<Longrightarrow> \<exists>m'. get_probability cookie m = Inr m' \<and> wf_probs m'"
  by (simp add: get_probability_closed wf_probs_update_spec)


lemma dom_update_spec: "c \<in> set s \<Longrightarrow> \<exists>lo hi. update_spec s m c = Some (lo, hi)"
  by (simp add: update_spec_def)

lemma arithmetic_encode_loop_bounds:
  "(\<And>c. c \<in> set s \<Longrightarrow> \<exists>lo hi. m c = Some (lo, hi) \<and> 0 \<le> lo \<and> lo \<le> hi \<and> hi \<le> 1) \<Longrightarrow>
   0 \<le> z \<Longrightarrow>
   \<exists>a' z'. arithmetic_encode_loop s m a z = Inr (a', z') \<and> a \<le> a' \<and> 0 \<le> z' \<and> a' + z' \<le> a + z"
proof (induction s arbitrary: a z)
  case Nil
  then show ?case by simp
next
  case (Cons c s)
  from Cons.prems(1) [of c] obtain lo hi where
    mc: "m c = Some (lo, hi)" and b: "0 \<le> lo" "lo \<le> hi" "hi \<le> 1" by auto
  have z1: "0 \<le> z * (hi - lo)" using Cons.prems(2) b by simp
  have "\<And>d. d \<in> set s \<Longrightarrow> \<exists>lo hi. m d = Some (lo, hi) \<and> 0 \<le> lo \<and> lo \<le> hi \<and> hi \<le> 1"
    using Cons.prems(1) by simp
  from Cons.IH [OF this z1, of "a + z * lo"] obtain a' z' where
    r: "arithmetic_encode_loop s m (a + z * lo) (z * (hi - lo)) = Inr (a', z')"
    and r1: "a + z * lo \<le> a'" and r2: "0 \<le> z'"
    and r3: "a' + z' \<le> a + z * lo + z * (hi - lo)" by blast
  have "0 \<le> z * lo" using Cons.prems(2) b by simp
  moreover have "z * lo + z * (hi - lo) = z * hi" by (simp add: algebra_simps)
  moreover have "z * hi \<le> z * 1" using Cons.prems(2) b by (intro mult_left_mono) simp_all
  ultimately have "a \<le> a'" and "a' + z' \<le> a + z" using r1 r3 by simp_all
  with r r2 mc show ?case by simp
qed

lemma arithmetic_encode_range:
  assumes wf: "wf_probs m" and dom: "\<And>c. c \<in> set s \<Longrightarrow> \<exists>lo hi. m c = Some (lo, hi)"
  shows "\<exists>a z. arithmetic_encode_loop s m 0 1 = Inr (a, z) \<and>
           0 \<le> a + 0.5 * z \<and> a + 0.5 * z \<le> 1 \<and>
           arithmetic_encode s m = Inr ((1 - (a + 0.5 * z)) * 10)"
proof -
  have "\<And>c. c \<in> set s \<Longrightarrow> \<exists>lo hi. m c = Some (lo, hi) \<and> 0 \<le> lo \<and> lo \<le> hi \<and> hi \<le> 1"
    using wf dom unfolding wf_probs_def by (meson less_imp_le)
  from arithmetic_encode_loop_bounds [where a = 0 and z = 1 and s = s and m = m, OF this]
  obtain a z where
    r: "arithmetic_encode_loop s m 0 1 = Inr (a, z)" and "0 \<le> a" "0 \<le> z" "a + z \<le> 1"
    by auto
  then have "0 \<le> a + 0.5 * z" "a + 0.5 * z \<le> 1" by simp_all
  with r show ?thesis by (simp add: arithmetic_encode_def)
qed

subsection \<open>encode: hit and miss\<close>

lemma arithmetic_encode_update_total:
  "\<exists>v. arithmetic_encode cookie (update_spec cookie m) = Inr v"
proof -
  have "\<And>a z. \<exists>r. arithmetic_encode_loop s (update_spec cookie m) a z = Inr r"
    if "set s \<subseteq> set cookie" for s
    using that
  proof (induction s)
    case Nil
    show ?case by simp
  next
    case (Cons c s)
    then have "c \<in> set cookie" and sub: "set s \<subseteq> set cookie" by simp_all
    from dom_update_spec [OF this(1), of m] obtain lo hi where
      "update_spec cookie m c = Some (lo, hi)" by blast
    with Cons.IH [OF sub] show ?case by simp
  qed
  from this [of cookie 0 1] obtain r where
    "arithmetic_encode_loop cookie (update_spec cookie m) 0 1 = Inr r" by auto
  then show ?thesis by (cases r) (simp add: arithmetic_encode_def)
qed

lemma encode_hit:
  "cache st = PyStr cookie # b # rest \<Longrightarrow> encode cookie st = Inr (b, st)"
  by (simp add: encode_def)

lemma encode_miss:
  "cache st = [] \<or> cache st ! 0 \<noteq> PyStr cookie \<Longrightarrow>
   arithmetic_encode cookie (update_spec cookie (probabilities st)) = Inr v \<Longrightarrow>
   encode cookie st =
     Inr (PyFloat v,
          \<lparr>probabilities = update_spec cookie (probabilities st),
           cache = PyStr cookie # PyFloat v # cache st\<rparr>)"
  by (auto simp: encode_def get_probability_closed list_insert_def)

lemma cache_cases:
  assumes "length c \<noteq> 1"
  obtains (hit) b rest where "c = PyStr cookie # b # rest"
  | (miss) "c = [] \<or> c ! 0 \<noteq> PyStr cookie"
proof (cases c)
  case Nil
  then show ?thesis using miss by simp
next
  case (Cons a c')
  with assms obtain b rest where c': "c' = b # rest" by (cases c') auto
  show ?thesis
  proof (cases "a = PyStr cookie")
    case True
    with Cons c' show ?thesis using hit by simp
  next
    case False
    with Cons show ?thesis using miss by simp
  qed
qed

lemma encode_twice:
  assumes "length (cache st) \<noteq> 1"
  shows "\<exists>r st1. encode v st = Inr (r, st1) \<and> encode v st1 = Inr (r, st1)"
  using assms
proof (cases rule: cache_cases [where c = "cache st" and cookie = v])
  case (hit b rest)
  then show ?thesis by (simp add: encode_hit)
next
  case miss
  obtain x where x: "arithmetic_encode v (update_spec v (probabilities st)) = Inr x"
    using arithmetic_encode_update_total by blast
  from encode_miss [OF miss x] show ?thesis by (simp add: encode_hit)
qed

lemma encode_front_pair:
  assumes "length (cache st) \<noteq> 1"
  shows "\<exists>r st'. encode cookie st = Inr (r, st') \<and>
           take 2 (cache st') = [PyStr cookie, r] \<and>
           (cache st' = cache st \<or> cache st' = PyStr cookie # r # cache st)"
  using assms
proof (cases rule: cache_cases [where c = "cache st" and cookie = cookie])
  case (hit b rest)
  then show ?thesis by (simp add: encode_hit)
next
  case miss
  obtain x where x: "arithmetic_encode cookie (update_spec cookie (probabilities st)) = Inr x"
    using arithmetic_encode_update_total by blast
  from encode_miss [OF miss x] show ?thesis by simp
qed

lemma encode_reads_front_only:
  "map_sum id (\<lambda>p. (fst p, probabilities (snd p)))
     (encode cookie \<lparr>probabilities = m, cache = a # b # rest\<rparr>) =
   map_sum id (\<lambda>p. (fst p, probabilities (snd p)))
     (encode cookie \<lparr>probabilities = m, cache = a # b # rest'\<rparr>)"
  by (simp add: encode_def split: sum.splits)

lemma encode_state_ok:
  assumes ok: "state_ok st"
  shows "\<exists>v st'. encode cookie st = Inr (PyFloat v, st') \<and> 0 \<le> v \<and> v \<le> 10 \<and> state_ok st'"
proof -
  from ok have wf: "wf_probs (probabilities st)" and c: "cache_ok (cache st)"
    by (simp_all add: state_ok_def)
  let ?m = "update_spec cookie (probabilities st)"
  have wf': "wf_probs ?m" using wf by (rule wf_probs_update_spec)
  from arithmetic_encode_range [OF wf', of cookie] obtain a z where
    mid: "0 \<le> a + 0.5 * z" "a + 0.5 * z \<le> 1"
    and v: "arithmetic_encode cookie ?m = Inr ((1 - (a + 0.5 * z)) * 10)"
    using dom_update_spec by blast
  from c have "length (cache st) \<noteq> 1" by (cases "cache st" rule: cache_ok.cases) simp_all
  then show ?thesis
  proof (cases rule: cache_cases [where c = "cache st" and cookie = cookie])
    case (hit b rest)
    with c obtain x where "b = PyFloat x" "0 \<le> x" "x \<le> 10" by (cases b) simp_all
    with hit ok show ?thesis by (simp add: encode_hit)
  next
    case miss
    from encode_miss [OF miss v] mid wf' show ?thesis by (simp add: state_ok_def)
  qed
qed

text \<open>Along a whole stream: every row is encoded, to a scalar in \<open>[0, 10]\<close>.\<close>

lemma parse_loop_state_ok:
  "state_ok st \<Longrightarrow>
   \<exists>out st'. parse_loop rows st acc = Inr (acc @ out, st') \<and> state_ok st' \<and>
     length out = length rows \<and> (\<forall>x\<in>set out. \<exists>v. x = PyFloat v \<and> 0 \<le> v \<and> v \<le> 10)"
proof (induction rows arbitrary: st acc)
  case Nil
  then show ?case by simp
next
  case (Cons row rows)
  from encode_state_ok [OF Cons.prems, of row] obtain v st1 where
    e: "encode row st = Inr (PyFloat v, st1)" and v: "0 \<le> v" "v \<le> 10" and ok: "state_ok st1"
    by blast
  from Cons.IH [OF ok, of "acc @ [PyFloat v]"] obtain out st' where
    r: "parse_loop rows st1 (acc @ [PyFloat v]) = Inr ((acc @ [PyFloat v]) @ out, st')"
    and ok': "state_ok st'" and len: "length out = length rows"
    and rng: "\<forall>x\<in>set out. \<exists>v. x = PyFloat v \<and> 0 \<le> v \<and> v \<le> 10" by blast
  show ?case
    by (rule exI [of _ "PyFloat v # out"], rule exI [of _ st'])
       (use e r ok' len rng v in simp)
qed

subsection \<open>Slots partition the unit interval\<close>









lemmas run_defs =
  encode_def get_probability_def Counter_def truediv_def arithmetic_encode_def
  list_insert_def parse_def Let_def

section \<open>Auxiliary facts on double arithmetic\<close>

lemmas fl_eval =
  round_double_def round_pos_def exponent_def exponent_hi.simps exponent_lo.simps
  round_half_even_def Let_def power_int_minus

subsection \<open>round_half_even\<close>

lemma round_half_even_of_int [simp]: "round_half_even (of_int k) = k"
  by (simp add: round_half_even_def)

lemma round_half_even_cases:
  "round_half_even y = \<lfloor>y\<rfloor> \<or> round_half_even y = \<lfloor>y\<rfloor> + 1"
  by (simp add: round_half_even_def Let_def)

lemma round_half_even_mono: "x \<le> y \<Longrightarrow> round_half_even x \<le> round_half_even y"
proof -
  assume xy: "x \<le> y"
  then have fl: "\<lfloor>x\<rfloor> \<le> \<lfloor>y\<rfloor>" by (rule floor_mono)
  show ?thesis
  proof (cases "\<lfloor>x\<rfloor> = \<lfloor>y\<rfloor>")
    case True
    with xy show ?thesis by (auto simp: round_half_even_def Let_def)
  next
    case False
    with fl have "\<lfloor>x\<rfloor> + 1 \<le> \<lfloor>y\<rfloor>" by simp
    moreover have "round_half_even x \<le> \<lfloor>x\<rfloor> + 1" using round_half_even_cases [of x] by auto
    moreover have "\<lfloor>y\<rfloor> \<le> round_half_even y" using round_half_even_cases [of y] by auto
    ultimately show ?thesis by linarith
  qed
qed

lemma round_half_even_ge: "of_int k \<le> y \<Longrightarrow> k \<le> round_half_even y"
  using round_half_even_mono [of "of_int k" y] by simp

lemma round_half_even_le: "y \<le> of_int k \<Longrightarrow> round_half_even y \<le> k"
  using round_half_even_mono [of y "of_int k"] by simp

subsection \<open>exponent\<close>

lemma exponent_hi_spec:
  "1 \<le> x \<Longrightarrow> 0 \<le> exponent_hi x \<and> 2 powi exponent_hi x \<le> x \<and> x < 2 powi (exponent_hi x + 1)"
proof (induction x rule: exponent_hi.induct)
  case (1 x)
  show ?case
  proof (cases "x < 2")
    case True
    with "1.prems" show ?thesis by (simp add: exponent_hi.simps)
  next
    case False
    then have "1 \<le> x / 2" by simp
    from "1.IH" [OF False this] False show ?thesis
      by (simp add: exponent_hi.simps [of x] power_int_add field_simps)
  qed
qed

lemma exponent_lo_spec:
  "0 < x \<Longrightarrow> x < 2 \<Longrightarrow>
   - int n \<le> exponent_lo n x \<and> exponent_lo n x \<le> 0 \<and> x < 2 powi (exponent_lo n x + 1) \<and>
   (2 powi exponent_lo n x \<le> x \<or> exponent_lo n x = - int n)"
proof (induction n x rule: exponent_lo.induct)
  case (1 n x)
  show ?case
  proof (cases "n = 0 \<or> 1 \<le> x")
    case True
    with "1.prems" show ?thesis by (auto simp: exponent_lo.simps [of n x])
  next
    case False
    then have n: "n \<noteq> 0" and x1: "x < 1" by simp_all
    from "1.prems" x1 have "0 < 2 * x" "2 * x < 2" by simp_all
    note ih = "1.IH" [OF False this]
    have e: "exponent_lo n x = exponent_lo (n - 1) (2 * x) - 1"
      using False by (simp add: exponent_lo.simps [of n x])
    have i: "int (n - 1) = int n - 1" using n by (simp add: of_nat_diff)
    have p: "(2::real) powi (exponent_lo (n - 1) (2 * x) + 1) = 2 * 2 powi exponent_lo (n - 1) (2 * x)"
      by (simp add: power_int_add)
    have p': "(2::real) powi (exponent_lo (n - 1) (2 * x) - 1) = 2 powi exponent_lo (n - 1) (2 * x) / 2"
      by (simp add: power_int_diff)
    from ih show ?thesis unfolding e i p p' by auto
  qed
qed

lemma exponent_spec:
  assumes "0 < x"
  shows "- 1022 \<le> exponent x" and "x < 2 powi (exponent x + 1)"
    and "2 powi exponent x \<le> x \<or> exponent x = - 1022"
proof -
  show "- 1022 \<le> exponent x"
    using exponent_hi_spec [of x] exponent_lo_spec [of x 1022] assms
    by (auto simp: exponent_def)
  show "x < 2 powi (exponent x + 1)"
    using exponent_hi_spec [of x] exponent_lo_spec [of x 1022] assms
    by (auto simp: exponent_def)
  show "2 powi exponent x \<le> x \<or> exponent x = - 1022"
    using exponent_hi_spec [of x] exponent_lo_spec [of x 1022] assms
    by (auto simp: exponent_def)
qed

lemma pow2_le_iff: "(2::real) powi a \<le> 2 powi b \<longleftrightarrow> a \<le> b"
  by (metis power_int_increasing power_int_strict_increasing not_le one_le_numeral one_less_numeral_iff semiring_norm(76))

lemma pow2_less_iff: "(2::real) powi a < 2 powi b \<longleftrightarrow> a < b"
  by (metis pow2_le_iff not_le)


subsection \<open>round_pos\<close>

lemma quantum_pos: "0 < quantum x"
  by (simp add: quantum_def)

lemma round_pos_quantum: "round_pos x = of_int (round_half_even (x / quantum x)) * quantum x"
  by (simp add: round_pos_def quantum_def Let_def)

lemma pow2_split: "(2::real) powi (e + 1) = 2 ^ 53 * 2 powi (e - 52)"
proof -
  have "e + 1 = 53 + (e - 52)" by simp
  then have "(2::real) powi (e + 1) = 2 powi (53 + (e - 52))" by (rule arg_cong)
  also have "\<dots> = 2 powi 53 * 2 powi (e - 52)" by (subst power_int_add) simp_all
  finally show ?thesis by simp
qed

lemma pow2_split': "(2::real) powi e = 2 ^ 52 * 2 powi (e - 52)"
proof -
  have "e = 52 + (e - 52)" by simp
  then have "(2::real) powi e = 2 powi (52 + (e - 52))" by (rule arg_cong)
  also have "\<dots> = 2 powi 52 * 2 powi (e - 52)" by (subst power_int_add) simp_all
  finally show ?thesis by simp
qed

lemma round_pos_nonneg: "0 < x \<Longrightarrow> 0 \<le> round_pos x"
proof -
  assume "0 < x"
  then have "of_int 0 \<le> x / quantum x" using quantum_pos [of x] by simp
  then have "0 \<le> round_half_even (x / quantum x)" by (rule round_half_even_ge)
  then show ?thesis using quantum_pos [of x] by (simp add: round_pos_quantum)
qed

lemma round_pos_upper: "0 < x \<Longrightarrow> round_pos x \<le> 2 powi (exponent x + 1)"
proof -
  assume x: "0 < x"
  have "x < 2 ^ 53 * quantum x"
    using exponent_spec(2) [OF x] by (simp only: pow2_split [of "exponent x"] quantum_def)
  then have "x / quantum x < 2 ^ 53"
    using quantum_pos [of x] by (simp only: pos_divide_less_eq)
  then have "x / quantum x \<le> 2 ^ 53" by simp
  then have "x / quantum x \<le> of_int (2 ^ 53)" by simp
  then have "round_half_even (x / quantum x) \<le> 2 ^ 53" by (rule round_half_even_le)
  then have "of_int (round_half_even (x / quantum x)) \<le> (2 ^ 53 :: real)"
    by (metis of_int_le_iff of_int_numeral of_int_power)
  then have "of_int (round_half_even (x / quantum x)) * quantum x \<le> 2 ^ 53 * quantum x"
    using quantum_pos [of x] by (intro mult_right_mono) simp_all
  then show ?thesis by (simp add: round_pos_quantum pow2_split [of "exponent x"] quantum_def)
qed

lemma round_pos_lower: "0 < x \<Longrightarrow> 2 powi exponent x \<le> x \<Longrightarrow> 2 powi exponent x \<le> round_pos x"
proof -
  assume x: "0 < x" and n: "2 powi exponent x \<le> x"
  have "2 ^ 52 * quantum x \<le> x"
    using n by (simp only: pow2_split' [of "exponent x", symmetric] quantum_def)
  then have "2 ^ 52 \<le> x / quantum x"
    using quantum_pos [of x] by (simp only: pos_le_divide_eq)
  then have "of_int (2 ^ 52) \<le> x / quantum x" by simp
  then have "2 ^ 52 \<le> round_half_even (x / quantum x)" by (rule round_half_even_ge)
  then have "(2 ^ 52 :: real) \<le> of_int (round_half_even (x / quantum x))"
    by (metis of_int_le_iff of_int_numeral of_int_power)
  then have "2 ^ 52 * quantum x \<le> of_int (round_half_even (x / quantum x)) * quantum x"
    using quantum_pos [of x] by (intro mult_right_mono) simp_all
  then show ?thesis by (simp add: round_pos_quantum pow2_split' [of "exponent x"] quantum_def)
qed


lemma round_pos_idem:
  assumes x: "0 < x" and r: "0 < round_pos x"
  shows "round_pos (round_pos x) = round_pos x"
proof -
  define e where "e = exponent x"
  define k where "k = round_half_even (x / quantum x)"
  define r where "r = round_pos x"
  define e' where "e' = exponent r"
  have rk: "r = of_int k * 2 powi (e - 52)"
    by (simp add: r_def k_def e_def round_pos_quantum quantum_def)
  have rpos: "0 < r" using assms(2) by (simp add: r_def)
  have up: "r \<le> 2 powi (e + 1)" unfolding r_def e_def using x by (rule round_pos_upper)
  have lo: "e = - 1022 \<or> 2 powi e \<le> r"
    using exponent_spec(3) [OF x] round_pos_lower [OF x] by (auto simp: e_def r_def)
  have e_min: "- 1022 \<le> e'" unfolding e'_def using rpos by (rule exponent_spec(1))
  have r_lt: "r < 2 powi (e' + 1)" unfolding e'_def using rpos by (rule exponent_spec(2))
  have r_ge: "2 powi e' \<le> r \<or> e' = - 1022" unfolding e'_def using rpos by (rule exponent_spec(3))
  have ge: "e \<le> e'"
  proof (rule ccontr)
    assume "\<not> e \<le> e'"
    then have lt: "e' + 1 \<le> e" by simp
    with e_min have "e \<noteq> - 1022" by simp
    with lo have "2 powi e \<le> r" by simp
    also note r_lt
    also have "(2::real) powi (e' + 1) \<le> 2 powi e" using lt by (simp add: pow2_le_iff)
    finally show False by simp
  qed
  have le: "e' \<le> e + 1"
  proof (rule ccontr)
    assume "\<not> e' \<le> e + 1"
    then have gt: "e + 1 < e'" by simp
    with ge exponent_spec(1) [OF x] have "e' \<noteq> - 1022" by (simp add: e_def)
    with r_ge have "2 powi e' \<le> r" by simp
    also note up
    also have "(2::real) powi (e + 1) < 2 powi e'" using gt by (simp add: pow2_less_iff)
    finally show False by simp
  qed
  have int: "\<exists>j. r / 2 powi (e' - 52) = of_int j"
  proof (cases "e' = e")
    case True
    then show ?thesis by (auto simp: rk)
  next
    case False
    with ge le have e1: "e' = e + 1" by simp
    with ge exponent_spec(1) [OF x] have "e' \<noteq> - 1022" by (simp add: e_def)
    with r_ge have "2 powi e' \<le> r" by simp
    with up e1 have "r = 2 powi e'" by simp
    then have "r / 2 powi (e' - 52) = of_int (2 ^ 52)"
      by (simp add: pow2_split' [of e'])
    then show ?thesis by blast
  qed
  then obtain j where j: "r / 2 powi (e' - 52) = of_int j" by blast
  then have rj: "r = of_int j * 2 powi (e' - 52)" by (simp add: field_simps)
  have "round_pos r = of_int (round_half_even (r / 2 powi (e' - 52))) * 2 powi (e' - 52)"
    by (simp add: round_pos_def e'_def Let_def)
  also have "\<dots> = of_int j * 2 powi (e' - 52)" by (simp add: j)
  also have "\<dots> = r" by (simp add: rj [symmetric])
  finally show ?thesis by (simp add: r_def)
qed

subsection \<open>round_double\<close>

lemma round_double_0 [simp]: "round_double 0 = 0"
  by (simp add: round_double_def)




lemma round_double_idem [simp]: "round_double (round_double x) = round_double x"
proof -
  have pos: "round_double (round_pos z) = round_pos z" if "0 < z" for z
  proof (cases "round_pos z = 0")
    case True
    then show ?thesis by simp
  next
    case False
    with round_pos_nonneg [OF that] have "0 < round_pos z" by simp
    with that show ?thesis by (simp add: round_double_def round_pos_idem)
  qed
  have neg: "round_double (- round_pos z) = - round_pos z" if "0 < z" for z
  proof (cases "round_pos z = 0")
    case True
    then show ?thesis by simp
  next
    case False
    with round_pos_nonneg [OF that] have "0 < round_pos z" by simp
    with that show ?thesis by (simp add: round_double_def round_pos_idem)
  qed
  show ?thesis
  proof (cases "x = 0")
    case True
    then show ?thesis by simp
  next
    case False
    then show ?thesis
      using pos [of x] neg [of "- x"] by (cases "0 < x") (simp_all add: round_double_def)
  qed
qed

lemma round_double_1 [simp]: "round_double 1 = 1"
  by (simp add: fl_eval)

lemma round_double_10 [simp]: "round_double 10 = 10"
  by (simp add: fl_eval)

subsection \<open>The update in doubles\<close>








subsection \<open>The encoding in doubles\<close>






subsection \<open>Fresh characters in doubles\<close>




subsection \<open>Runs of the code in double arithmetic\<close>








text \<open>The cursor after a first update with \<open>''aaaabc''\<close> is the double below 1.\<close>

lemma cursor_fl_aaaabc: "cursor_fl ''aaaabc'' = 9007199254740991 / 9007199254740992"
  by (simp add: cursor_fl_def first_counted_def fl_eval)


section \<open>Properties of the encoder\<close>

text \<open>C7. For every non-empty string, \<open>get_probability\<close> raises nothing and returns the
  model the specification describes: the distinct characters are taken in first-counted
  order, the slot of a character starts at the sum of the frequencies \<open>count / total\<close> of
  the characters before it and ends one frequency further, a character that has an
  interval \<open>(old_start, old_end)\<close> gets
  \<open>(start + old_start * (end - start), start + old_end * (end - start))\<close>, a new character
  gets \<open>(start, end)\<close>, and a character that is not in the string keeps its entry.\<close>

theorem get_probability_refines_spec:
  "cookie \<noteq> [] \<Longrightarrow> get_probability cookie m = Inr (update_spec cookie m)"
  by (rule get_probability_closed)

theorem get_probability_refines_spec_witness:
  "''ab'' \<noteq> [] \<and>
   get_probability ''ab'' [CHR ''b'' \<mapsto> (0, 1 / 2)] =
     Inr (update_spec ''ab'' [CHR ''b'' \<mapsto> (0, 1 / 2)]) \<and>
   update_spec ''ab'' [CHR ''b'' \<mapsto> (0, 1 / 2)] CHR ''a'' = Some (0, 1 / 2) \<and>
   update_spec ''ab'' [CHR ''b'' \<mapsto> (0, 1 / 2)] CHR ''b'' = Some (1 / 2, 3 / 4) \<and>
   update_spec ''ab'' [CHR ''b'' \<mapsto> (0, 1 / 2)] CHR ''c'' = None"
  using get_probability_refines_spec [of "''ab''" "[CHR ''b'' \<mapsto> (0, 1 / 2)]"]
  by (simp add: update_spec_def slot_start_def first_counted_def freq_def rescale_def)

text \<open>C8. The first call on a fresh model and an empty cache with \<open>''ab''\<close>: the model
  becomes \<open>a \<mapsto> (0, 0.5)\<close>, \<open>b \<mapsto> (0.5, 1)\<close>, the pass over the string ends with
  \<open>interval_start = 0.25\<close> and \<open>interval_size = 0.25\<close>, and the call returns 6.25.\<close>

theorem encode_ab_first_call:
  "get_probability ''ab'' Map.empty = Inr [CHR ''a'' \<mapsto> (0, 0.5), CHR ''b'' \<mapsto> (0.5, 1)] \<and>
   arithmetic_encode_loop ''ab'' [CHR ''a'' \<mapsto> (0, 0.5), CHR ''b'' \<mapsto> (0.5, 1)] 0 1 =
     Inr (0.25, 0.25) \<and>
   encode ''ab'' \<lparr>probabilities = Map.empty, cache = []\<rparr> =
     Inr (PyFloat 6.25,
          \<lparr>probabilities = [CHR ''a'' \<mapsto> (0, 0.5), CHR ''b'' \<mapsto> (0.5, 1)],
           cache = [PyStr ''ab'', PyFloat 6.25]\<rparr>)"
  by (simp add: run_defs)

text \<open>C10. Encoding the empty string with an empty cache: the counter is empty, so the loop
  of \<open>get_probability\<close> runs no iteration (no division is evaluated, whatever the total),
  the model is returned as it was, the interval stays at start 0 and size 1, and the call
  returns 5 without an error.\<close>

theorem encode_empty_string:
  "Counter [] = [] \<and>
   get_probability_loop (Counter []) 0 0 m = Inr m \<and>
   get_probability [] m = Inr m \<and>
   arithmetic_encode_loop [] m 0 1 = Inr (0, 1) \<and>
   encode [] \<lparr>probabilities = m, cache = []\<rparr> =
     Inr (PyFloat 5, \<lparr>probabilities = m, cache = [PyStr [], PyFloat 5]\<rparr>)"
  by (simp add: run_defs)

text \<open>C5 (as the code has it). The empty string does not make the code divide by a total
  of zero: neither \<open>get_probability\<close> nor \<open>encode\<close> ends in ZeroDivisionError on it.\<close>

theorem get_probability_empty_no_division_counterexample:
  "get_probability [] Map.empty \<noteq> Inl ZeroDivisionError \<and>
   encode [] \<lparr>probabilities = Map.empty, cache = []\<rparr> \<noteq> Inl ZeroDivisionError"
  by (simp add: run_defs)

text \<open>C5, amended. The division is inside the loop over the counted characters, and the
  empty string has none: \<open>get_probability\<close> returns the model unchanged on the empty
  string, and it returns a model, not an error, on every string.\<close>

theorem get_probability_never_faults:
  "get_probability [] m = Inr m \<and> (\<exists>m'. get_probability cookie m = Inr m')"
  by (simp add: get_probability_closed update_spec_def)







text \<open>C3. When a value is encoded twice in a row, the second call returns the very value
  the first call returned and leaves the state, hence the model, as the first call left
  it. Both calls return: the cache of a running program never has exactly one element
  (it is empty or starts with a pair), which is all the first call needs.\<close>

theorem encode_repeat_short_circuit:
  assumes "length (cache st) \<noteq> 1"
  shows "\<exists>r st1 st2. encode v st = Inr (r, st1) \<and> encode v st1 = Inr (r, st2) \<and>
           probabilities st2 = probabilities st1 \<and> st2 = st1"
  using encode_twice [OF assms, of v] by auto

theorem encode_repeat_short_circuit_witness:
  "length (cache \<lparr>probabilities = Map.empty, cache = []\<rparr>) \<noteq> 1 \<and>
   (\<exists>r st1 st2. encode ''ab'' \<lparr>probabilities = Map.empty, cache = []\<rparr> = Inr (r, st1) \<and>
      encode ''ab'' st1 = Inr (r, st2) \<and> probabilities st2 = probabilities st1 \<and> st2 = st1)"
proof -
  have h: "length (cache \<lparr>probabilities = Map.empty, cache = []\<rparr>) \<noteq> 1" by simp
  from h encode_repeat_short_circuit [OF h, of "''ab''"] show ?thesis by blast
qed

text \<open>C6 (as the code has it). The cache is not a single slot that is overwritten: a miss
  inserts the string at index 0 and the scalar at index 1, in front of what the list held,
  so after two misses the list has four elements.\<close>

theorem cache_grows_counterexample:
  "parse [''a'', ''b''] [] =
     Inr ([PyFloat 5, PyFloat 5], [PyStr ''b'', PyFloat 5, PyStr ''a'', PyFloat 5])"
  by (simp add: run_defs)

text \<open>C6, amended. After every call of \<open>encode\<close> the first two elements of the cache are the
  string just processed and the scalar returned for it. When the cache starts with the
  string (a hit), the call returns the second element and leaves the whole state, the list
  included, unchanged; otherwise (a miss) it puts the string and the new scalar in front of
  the old list, which grows by two elements. \<open>encode\<close> reads the first two elements only:
  what follows them changes neither the value returned nor the model.\<close>

theorem cache_front_pair:
  assumes "length (cache st) \<noteq> 1"
  shows "(\<exists>r st'. encode cookie st = Inr (r, st') \<and>
            take 2 (cache st') = [PyStr cookie, r] \<and>
            (if cache st \<noteq> [] \<and> cache st ! 0 = PyStr cookie
             then st' = st \<and> r = cache st ! 1
             else cache st' = PyStr cookie # r # cache st)) \<and>
         map_sum id (\<lambda>p. (fst p, probabilities (snd p)))
           (encode cookie \<lparr>probabilities = m, cache = a # b # rest\<rparr>) =
         map_sum id (\<lambda>p. (fst p, probabilities (snd p)))
           (encode cookie \<lparr>probabilities = m, cache = a # b # rest'\<rparr>)"
proof
  show "\<exists>r st'. encode cookie st = Inr (r, st') \<and>
            take 2 (cache st') = [PyStr cookie, r] \<and>
            (if cache st \<noteq> [] \<and> cache st ! 0 = PyStr cookie
             then st' = st \<and> r = cache st ! 1
             else cache st' = PyStr cookie # r # cache st)"
    using assms
  proof (cases rule: cache_cases [where c = "cache st" and cookie = cookie])
    case (hit b rest)
    then show ?thesis by (simp add: encode_hit)
  next
    case miss
    obtain x where x: "arithmetic_encode cookie (update_spec cookie (probabilities st)) = Inr x"
      using arithmetic_encode_update_total by blast
    from encode_miss [OF miss x] miss show ?thesis by auto
  qed
  show "map_sum id (\<lambda>p. (fst p, probabilities (snd p)))
           (encode cookie \<lparr>probabilities = m, cache = a # b # rest\<rparr>) =
         map_sum id (\<lambda>p. (fst p, probabilities (snd p)))
           (encode cookie \<lparr>probabilities = m, cache = a # b # rest'\<rparr>)"
    by (rule encode_reads_front_only)
qed

theorem cache_front_pair_witness:
  "length (cache \<lparr>probabilities = Map.empty, cache = [PyStr ''a'', PyFloat 5]\<rparr>) \<noteq> 1 \<and>
   encode ''a'' \<lparr>probabilities = Map.empty, cache = [PyStr ''a'', PyFloat 5]\<rparr> =
     Inr (PyFloat 5, \<lparr>probabilities = Map.empty, cache = [PyStr ''a'', PyFloat 5]\<rparr>) \<and>
   (\<exists>r st'. encode ''b'' \<lparr>probabilities = Map.empty, cache = [PyStr ''a'', PyFloat 5]\<rparr> =
        Inr (r, st') \<and>
      cache st' = [PyStr ''b'', r, PyStr ''a'', PyFloat 5])"
proof -
  let ?st = "\<lparr>probabilities = Map.empty, cache = [PyStr ''a'', PyFloat 5]\<rparr>"
  have h: "length (cache ?st) \<noteq> 1" by simp
  from cache_front_pair [OF h, of "''a''", THEN conjunct1]
  have hit: "encode ''a'' ?st = Inr (PyFloat 5, ?st)"
    by auto
  from cache_front_pair [OF h, of "''b''", THEN conjunct1] have miss:
    "\<exists>r st'. encode ''b'' ?st = Inr (r, st') \<and> cache st' = [PyStr ''b'', r, PyStr ''a'', PyFloat 5]"
    by auto
  from h hit miss show ?thesis by blast
qed




text \<open>C2. A worker that is handed two files runs \<open>parse\<close> on both with the same global
  \<open>cache\<close>: \<open>parse\<close> starts each file with an empty model, but not with an empty cache. The
  stream \<open>[''ab'']\<close> alone gives 6.25; after the stream \<open>[''ba'', ''ab'']\<close> in the same worker
  it gives 5.9375, the scalar the other stream left in the cache.\<close>

theorem worker_shares_cache:
  "parse [''ab''] [] = Inr ([PyFloat 6.25], [PyStr ''ab'', PyFloat 6.25]) \<and>
   worker [[''ba'', ''ab''], [''ab'']] [] =
     Inr ([[PyFloat 6.25, PyFloat 5.9375], [PyFloat 5.9375]],
          [PyStr ''ab'', PyFloat 5.9375, PyStr ''ba'', PyFloat 6.25])"
  by (simp add: run_defs)

end
